theory Spec2Isabelle
  imports Main
begin

section \<open>Strings and the two directive patterns\<close>

text \<open>
  JavaScript strings are modelled as \<^typ>\<open>string\<close> (lists of 8-bit characters). The two
  regular expressions of \<^verbatim>\<open>bundler.ts\<close> are embedded as matchers anchored at the head of
  the remaining text; the scan over all start positions is written out separately.

  \<^verbatim>\<open>IMPORT_PATTERN = /@import ['"](.+)['"];/g\<close>
  \<^verbatim>\<open>COMMENTED_IMPORT_PATTERN = /\/\/@import '(.+)';/g\<close>
\<close>

definition sq :: char where
  "sq = CHR 0x27"

definition dq :: char where
  "dq = CHR 0x22"

definition isQuote :: "char \<Rightarrow> bool" where
  "isQuote c = (c = sq \<or> c = dq)"

text \<open>The regular expression atom \<^verbatim>\<open>.\<close> matches every character but a line terminator.\<close>

definition isLineTerminator :: "char \<Rightarrow> bool" where
  "isLineTerminator c = (c = CHR 0x0A \<or> c = CHR 0x0D)"

fun stripPrefix :: "string \<Rightarrow> string \<Rightarrow> string option" where
  "stripPrefix [] s = Some s"
| "stripPrefix (p # ps) [] = None"
| "stripPrefix (p # ps) (c # cs) = (if p = c then stripPrefix ps cs else None)"

text \<open>The tail \<^verbatim>\<open>['"];\<close> of the live pattern and the tail \<^verbatim>\<open>';\<close> of the commented one:
  the text they consume and what is left.\<close>

definition closeImport :: "string \<Rightarrow> (string \<times> string) option" where
  "closeImport s =
     (case s of
        q # c # r \<Rightarrow> if isQuote q \<and> c = CHR '';'' then Some ([q, c], r) else None
      | _ \<Rightarrow> None)"

definition closeCommented :: "string \<Rightarrow> (string \<times> string) option" where
  "closeCommented s =
     (case s of
        q # c # r \<Rightarrow> if q = sq \<and> c = CHR '';'' then Some ([q, c], r) else None
      | _ \<Rightarrow> None)"

text \<open>
  Greedy \<^verbatim>\<open>.*\<close> followed by a tail, with the backtracking of the regular expression
  engine: the star first takes one more character and only when the rest cannot be matched
  that way the tail is tried at the current position. The result is the text taken by the
  star, the text taken by the tail, and the remaining input.
\<close>

fun dotStarThen :: "(string \<Rightarrow> (string \<times> string) option) \<Rightarrow> string \<Rightarrow> (string \<times> string \<times> string) option" where
  "dotStarThen close [] =
     (case close [] of Some (k, r) \<Rightarrow> Some ([], k, r) | None \<Rightarrow> None)"
| "dotStarThen close (c # cs) =
     (if isLineTerminator c then
        (case close (c # cs) of Some (k, r) \<Rightarrow> Some ([], k, r) | None \<Rightarrow> None)
      else
        (case dotStarThen close cs of
           Some (g, k, r) \<Rightarrow> Some (c # g, k, r)
         | None \<Rightarrow> (case close (c # cs) of Some (k, r) \<Rightarrow> Some ([], k, r) | None \<Rightarrow> None)))"

text \<open>\<^verbatim>\<open>(.+)\<close> followed by a tail: one character that is not a line terminator, then the star.\<close>

definition dotPlusThen :: "(string \<Rightarrow> (string \<times> string) option) \<Rightarrow> string \<Rightarrow> (string \<times> string \<times> string) option" where
  "dotPlusThen close s =
     (case s of
        [] \<Rightarrow> None
      | c # cs \<Rightarrow>
          if isLineTerminator c then None
          else (case dotStarThen close cs of
                  Some (g, k, r) \<Rightarrow> Some (c # g, k, r)
                | None \<Rightarrow> None))"

text \<open>A match anchored at the head of \<open>s\<close>: the matched text (\<^verbatim>\<open>match[0]\<close>), the group
  (\<^verbatim>\<open>match[1]\<close>) and the input after the match.\<close>

definition IMPORT_PATTERN :: "string \<Rightarrow> (string \<times> string \<times> string) option" where
  "IMPORT_PATTERN s =
     (case stripPrefix ''@import '' s of
        None \<Rightarrow> None
      | Some [] \<Rightarrow> None
      | Some (q # s') \<Rightarrow>
          if isQuote q then
            (case dotPlusThen closeImport s' of
               Some (g, k, r) \<Rightarrow> Some (''@import '' @ [q] @ g @ k, g, r)
             | None \<Rightarrow> None)
          else None)"

definition COMMENTED_IMPORT_PATTERN :: "string \<Rightarrow> (string \<times> string \<times> string) option" where
  "COMMENTED_IMPORT_PATTERN s =
     (case stripPrefix ''//@import '' s of
        None \<Rightarrow> None
      | Some [] \<Rightarrow> None
      | Some (q # s') \<Rightarrow>
          if q = sq then
            (case dotPlusThen closeCommented s' of
               Some (g, k, r) \<Rightarrow> Some (''//@import '' @ [q] @ g @ k, g, r)
             | None \<Rightarrow> None)
          else None)"

lemma stripPrefix_Some: "stripPrefix p s = Some r \<Longrightarrow> s = p @ r"
  by (induction p s rule: stripPrefix.induct) (auto split: if_splits)

lemma closeImport_Some: "closeImport s = Some (k, r) \<Longrightarrow> s = k @ r"
  by (auto simp: closeImport_def split: list.splits if_splits)

lemma closeCommented_Some: "closeCommented s = Some (k, r) \<Longrightarrow> s = k @ r"
  by (auto simp: closeCommented_def split: list.splits if_splits)

lemma dotStarThen_Some:
  assumes "\<And>s k r. close s = Some (k, r) \<Longrightarrow> s = k @ r"
  shows "dotStarThen close s = Some (g, k, r) \<Longrightarrow> s = g @ k @ r"
proof (induction s arbitrary: g)
  case Nil
  then show ?case using assms by (auto split: option.splits)
next
  case (Cons c cs)
  then show ?case using assms [of "c # cs"]
    by (auto split: option.splits if_splits)
qed

lemma dotPlusThen_Some:
  assumes "\<And>s k r. close s = Some (k, r) \<Longrightarrow> s = k @ r"
  shows "dotPlusThen close s = Some (g, k, r) \<Longrightarrow> s = g @ k @ r \<and> g \<noteq> []"
  using dotStarThen_Some [OF assms]
  by (auto simp: dotPlusThen_def split: list.splits option.splits if_splits)

lemma IMPORT_PATTERN_Some:
  "IMPORT_PATTERN s = Some (m, g, r) \<Longrightarrow> s = m @ r \<and> m \<noteq> []"
  using dotPlusThen_Some [of closeImport, OF closeImport_Some]
  by (fastforce simp: IMPORT_PATTERN_def split: option.splits list.splits if_splits
        dest!: stripPrefix_Some)

lemma COMMENTED_IMPORT_PATTERN_Some:
  "COMMENTED_IMPORT_PATTERN s = Some (m, g, r) \<Longrightarrow> s = m @ r \<and> m \<noteq> []"
  using dotPlusThen_Some [of closeCommented, OF closeCommented_Some]
  by (fastforce simp: COMMENTED_IMPORT_PATTERN_def split: option.splits list.splits if_splits
        dest!: stripPrefix_Some)

text \<open>
  Modelled from the spec: \<^verbatim>\<open>Helpers.getAllMatches\<close> (the file \<^verbatim>\<open>helpers.ts\<close> is not among
  the sources). The spec has the engine "scan the content for every live Import Directive, in
  appearance order"; with the global flag of \<^verbatim>\<open>IMPORT_PATTERN\<close> this is the list of
  successive matches, each search starting where the previous match ended. An element is the
  pair of \<^verbatim>\<open>match[0]\<close> and \<^verbatim>\<open>match[1]\<close>.
\<close>

function getAllMatches :: "string \<Rightarrow> (string \<times> string) list" where
  "getAllMatches s =
     (case IMPORT_PATTERN s of
        Some (m, g, r) \<Rightarrow> (m, g) # getAllMatches r
      | None \<Rightarrow> (case s of [] \<Rightarrow> [] | c # cs \<Rightarrow> getAllMatches cs))"
  by pat_completeness auto

termination
  by (relation "measure length") (auto dest!: IMPORT_PATTERN_Some)

text \<open>\<^verbatim>\<open>content.replace(COMMENTED_IMPORT_PATTERN, "")\<close>: every match of the global pattern is
  removed, the text between the matches is kept.\<close>

function removeCommentedImports :: "string \<Rightarrow> string" where
  "removeCommentedImports s =
     (case COMMENTED_IMPORT_PATTERN s of
        Some (m, g, r) \<Rightarrow> removeCommentedImports r
      | None \<Rightarrow> (case s of [] \<Rightarrow> [] | c # cs \<Rightarrow> c # removeCommentedImports cs))"
  by pat_completeness auto

termination
  by (relation "measure length") (auto dest!: COMMENTED_IMPORT_PATTERN_Some)

declare getAllMatches.simps [simp del]

declare removeCommentedImports.simps [simp del]

section \<open>String replacement\<close>

text \<open>The first occurrence of \<open>pat\<close> in \<open>s\<close>: the text before it and the text after it.\<close>

fun splitAtFirst :: "string \<Rightarrow> string \<Rightarrow> (string \<times> string) option" where
  "splitAtFirst pat [] = (case stripPrefix pat [] of Some r \<Rightarrow> Some ([], r) | None \<Rightarrow> None)"
| "splitAtFirst pat (c # cs) =
     (case stripPrefix pat (c # cs) of
        Some r \<Rightarrow> Some ([], r)
      | None \<Rightarrow> (case splitAtFirst pat cs of Some (b, a) \<Rightarrow> Some (c # b, a) | None \<Rightarrow> None))"

text \<open>\<^verbatim>\<open>s.indexOf(pat) === -1\<close>\<close>

definition notContains :: "string \<Rightarrow> string \<Rightarrow> bool" where
  "notContains s pat = (splitAtFirst pat s = None)"

text \<open>
  \<^verbatim>\<open>String.prototype.replace\<close> with a string pattern expands, in the replacement text, the
  patterns \<^verbatim>\<open>$$\<close> (a dollar sign), \<^verbatim>\<open>$&\<close> (the matched text), \<^verbatim>\<open>$`\<close> (the text before
  the match) and \<^verbatim>\<open>$'\<close> (the text after the match). There are no capture groups for a
  string pattern, so \<^verbatim>\<open>$1\<close> and the like stay as they are.
\<close>

fun getSubstitution :: "string \<Rightarrow> string \<Rightarrow> string \<Rightarrow> string \<Rightarrow> string" where
  "getSubstitution matched front back [] = []"
| "getSubstitution matched front back [c] = [c]"
| "getSubstitution matched front back (c # d # r) =
     (if c = CHR ''$'' \<and> d = CHR ''$'' then CHR ''$'' # getSubstitution matched front back r
      else if c = CHR ''$'' \<and> d = CHR ''&'' then matched @ getSubstitution matched front back r
      else if c = CHR ''$'' \<and> d = CHR 0x60 then front @ getSubstitution matched front back r
      else if c = CHR ''$'' \<and> d = sq then back @ getSubstitution matched front back r
      else c # getSubstitution matched front back (d # r))"

text \<open>\<^verbatim>\<open>content.replace(searchString, replaceValue)\<close>: only the first occurrence is replaced;
  a text without the search string is returned as it is.\<close>

definition js_replace :: "string \<Rightarrow> string \<Rightarrow> string \<Rightarrow> string" where
  "js_replace content searchString replaceValue =
     (case splitAtFirst searchString content of
        None \<Rightarrow> content
      | Some (b, a) \<Rightarrow> b @ getSubstitution searchString b a replaceValue @ a)"

section \<open>The environment: path, fs, os and globs\<close>

text \<open>
  The bundler calls Node's \<^verbatim>\<open>path\<close>, \<^verbatim>\<open>fs\<close> and \<^verbatim>\<open>os\<close> modules and the \<^verbatim>\<open>globs\<close> package.
  They are parameters of the model. \<open>fs_access\<close> tells whether \<^verbatim>\<open>fs.access\<close> succeeds,
  \<open>fs_readFile\<close> is \<open>None\<close> when \<^verbatim>\<open>fs.readFile\<close> rejects, \<open>globs\<close> is \<open>None\<close> when the
  callback of \<^verbatim>\<open>globs\<close> receives an error. The file system does not change during a run.
\<close>

record env =
  path_resolve :: "string list \<Rightarrow> string"
  path_dirname :: "string \<Rightarrow> string"
  path_basename :: "string \<Rightarrow> string"
  path_join :: "string list \<Rightarrow> string"
  os_EOL :: string
  fs_access :: "string \<Rightarrow> bool"
  fs_readFile :: "string \<Rightarrow> string option"
  globs :: "string list \<Rightarrow> string list option"

section \<open>Data of the bundler\<close>

definition FILE_EXTENSION :: string where
  "FILE_EXTENSION = ''.scss''"

record ImportData =
  importString :: string
  path :: string
  fullPath :: string
  importFound :: bool

text \<open>
  \<^verbatim>\<open>BundleResult\<close>. The optional fields \<^verbatim>\<open>bundledContent\<close> and \<^verbatim>\<open>imports\<close> are options;
  \<^verbatim>\<open>deduped\<close> is only ever assigned \<^verbatim>\<open>true\<close>, so it is a flag that is \<open>False\<close> while the
  property is absent. The field \<^verbatim>\<open>imports\<close> is called \<open>childImports\<close> here.
\<close>

datatype BundleResult =
  BundleResult (filePath: string) (found: bool) (bundledContent: "string option")
    (childImports: "BundleResult list option") (deduped: bool)

text \<open>The values a usage counter can take: \<^verbatim>\<open>undefined++\<close> leaves \<^verbatim>\<open>NaN\<close> behind.\<close>

datatype jsnum = NaN | Num nat

definition increment :: "jsnum option \<Rightarrow> jsnum" where
  "increment v = (case v of None \<Rightarrow> NaN | Some NaN \<Rightarrow> NaN | Some (Num k) \<Rightarrow> Num (k + 1))"

text \<open>
  The fields of a \<^verbatim>\<open>Bundler\<close> object (an entry that holds \<^verbatim>\<open>undefined\<close> is an absent
  key), followed by three traces: the paths given to \<^verbatim>\<open>fs.readFile\<close>, the pattern lists
  given to \<^verbatim>\<open>globs\<close>, and the import sites the loop of \<^verbatim>\<open>bundle\<close> has passed, each with the
  resolved path, whether the target was found and whether the site was deduped. The traces
  are only written, never read.
\<close>

record state =
  fileRegistry :: "string \<rightharpoonup> string"
  usedImports :: "string \<rightharpoonup> jsnum"
  importsByFile :: "string \<rightharpoonup> BundleResult list"
  readLog :: "string list"
  globLog :: "string list list"
  importLog :: "(string \<times> bool \<times> bool) list"

datatype error = AccessError string | ReadFileError string | GlobError

section \<open>Resolving one directive (lines 85 to 118)\<close>

definition resolveImport :: "env \<Rightarrow> string \<Rightarrow> string \<times> string \<Rightarrow> ImportData" where
  "resolveImport env dirname match =
     (let importName =
            (if notContains (snd match) FILE_EXTENSION then snd match @ FILE_EXTENSION
             else snd match);
          candidate = path_resolve env [dirname, importName]
      in if fs_access env candidate then
           \<lparr>importString = fst match, path = importName, fullPath = candidate,
            importFound = True\<rparr>
         else
           (let underscoredDirname = path_dirname env candidate;
                underscoredBasename = path_basename env candidate;
                underscoredFilePath =
                  path_join env [underscoredDirname, CHR ''_'' # underscoredBasename]
            in if fs_access env underscoredFilePath then
                 \<lparr>importString = fst match, path = importName, fullPath = underscoredFilePath,
                  importFound = True\<rparr>
               else
                 \<lparr>importString = fst match, path = importName, fullPath = candidate,
                  importFound = False\<rparr>))"

section \<open>Substituting one directive (lines 183 to 210)\<close>

definition notFoundMarker :: "env \<Rightarrow> string \<Rightarrow> string" where
  "notFoundMarker env directive =
     ''/*** IMPORTED FILE NOT FOUND ***/'' @ os_EOL env @ directive @ ''/*** --- ***/''"

definition contentToReplace :: "env \<Rightarrow> state \<Rightarrow> ImportData \<Rightarrow> string" where
  "contentToReplace env st imp =
     (case fileRegistry st (fullPath imp) of
        Some c \<Rightarrow> c
      | None \<Rightarrow> notFoundMarker env (importString imp))"

definition shouldDedupe :: "string list \<Rightarrow> state \<Rightarrow> ImportData \<Rightarrow> bool" where
  "shouldDedupe dedupeFiles st imp =
     (dedupeFiles \<noteq> [] \<and> List.member dedupeFiles (fullPath imp) \<and>
      (case usedImports st (fullPath imp) of
         Some (Num timesUsed) \<Rightarrow> 1 < timesUsed
       | _ \<Rightarrow> False))"

definition setDeduped :: "BundleResult \<Rightarrow> BundleResult" where
  "setDeduped r = BundleResult (filePath r) (found r) (bundledContent r) (childImports r) True"

text \<open>The end of the loop body: the new state (only its trace has grown), the new text of
  the file and the node that is pushed.\<close>

definition replaceImport ::
  "env \<Rightarrow> string list \<Rightarrow> state \<Rightarrow> ImportData \<Rightarrow> string \<Rightarrow> BundleResult \<Rightarrow> state \<times> string \<times> BundleResult" where
  "replaceImport env dedupeFiles st imp content currentImport =
     (let d = shouldDedupe dedupeFiles st imp;
          content1 = (if d then [] else content);
          currentImport1 = (if d then setDeduped currentImport else currentImport)
      in (st\<lparr>importLog := importLog st @ [(fullPath imp, importFound imp, d)]\<rparr>,
          js_replace content1 (importString imp) (contentToReplace env st imp),
          currentImport1))"

section \<open>The recursive bundle\<close>

text \<open>
  \<open>bundle'\<close> is the private method \<^verbatim>\<open>bundle\<close> (the name alone is a keyword of
  Isabelle), \<open>bundleImports\<close> its \<^verbatim>\<open>for\<close> loop over the
  resolved imports. The first argument bounds the depth of the recursion through imports;
  \<open>None\<close> says that the bound was too small. A rejected \<^verbatim>\<open>fs.readFile\<close> is an exception
  that leaves every enclosing \<^verbatim>\<open>bundle\<close>: the result \<open>Inl\<close>, with the state as it was then.
\<close>

fun bundle' :: "nat \<Rightarrow> env \<Rightarrow> state \<Rightarrow> string \<Rightarrow> string \<Rightarrow> string list \<Rightarrow> (state \<times> (error + BundleResult)) option"
  and bundleImports :: "nat \<Rightarrow> env \<Rightarrow> string list \<Rightarrow> ImportData list \<Rightarrow> state \<Rightarrow> string \<Rightarrow> BundleResult list \<Rightarrow> (state \<times> (error + string \<times> BundleResult list)) option"
  where
  "bundle' 0 env st file content dedupeFiles = None"
| "bundle' (Suc n) env st file content dedupeFiles =
     (let content1 = removeCommentedImports content;
          filePath1 = path_resolve env [file];
          dirname = path_dirname env filePath1;
          st1 = (if fileRegistry st filePath1 = None
                 then st\<lparr>fileRegistry := (fileRegistry st)(filePath1 \<mapsto> content1)\<rparr>
                 else st);
          imports = map (resolveImport env dirname) (getAllMatches content1)
      in case bundleImports n env dedupeFiles imports st1 content1 [] of
           None \<Rightarrow> None
         | Some (st2, Inl e) \<Rightarrow> Some (st2, Inl e)
         | Some (st2, Inr (content2, currentImports)) \<Rightarrow>
             Some (st2\<lparr>importsByFile := (importsByFile st2)(filePath1 \<mapsto> currentImports)\<rparr>,
                   Inr (BundleResult filePath1 True (Some content2) (Some currentImports) False)))"
| "bundleImports n env dedupeFiles [] st content currentImports =
     Some (st, Inr (content, currentImports))"
| "bundleImports n env dedupeFiles (imp # imps) st content currentImports =
     (if \<not> importFound imp then
        (let currentImport = BundleResult (fullPath imp) False None None False;
             (st1, content1, currentImport1) =
               replaceImport env dedupeFiles st imp content currentImport
         in bundleImports n env dedupeFiles imps st1 content1 (currentImports @ [currentImport1]))
      else if fileRegistry st (fullPath imp) = None then
        (let st0 = st\<lparr>readLog := readLog st @ [fullPath imp]\<rparr> in
         case fs_readFile env (fullPath imp) of
           None \<Rightarrow> Some (st0, Inl (ReadFileError (fullPath imp)))
         | Some impContent \<Rightarrow>
             (case bundle' n env st0 (fullPath imp) impContent dedupeFiles of
                None \<Rightarrow> None
              | Some (st1, Inl e) \<Rightarrow> Some (st1, Inl e)
              | Some (st1, Inr bundledImport) \<Rightarrow>
                  (let st2 = st1\<lparr>fileRegistry :=
                               (fileRegistry st1)(fullPath imp := bundledContent bundledImport)\<rparr>;
                       st3 = (if usedImports st2 (fullPath imp) = None
                              then st2\<lparr>usedImports := (usedImports st2)(fullPath imp \<mapsto> Num 1)\<rparr>
                              else st2);
                       (st4, content1, currentImport1) =
                         replaceImport env dedupeFiles st3 imp content bundledImport
                   in bundleImports n env dedupeFiles imps st4 content1
                        (currentImports @ [currentImport1]))))
      else
        (let st1 = st\<lparr>usedImports :=
                     (usedImports st)(fullPath imp \<mapsto> increment (usedImports st (fullPath imp)))\<rparr>;
             currentImport =
               BundleResult (fullPath imp) True None (importsByFile st1 (fullPath imp)) False;
             (st2, content1, currentImport1) =
               replaceImport env dedupeFiles st1 imp content currentImport
         in bundleImports n env dedupeFiles imps st2 content1 (currentImports @ [currentImport1])))"

section \<open>The public methods\<close>

text \<open>\<^verbatim>\<open>globFilesOrEmpty\<close>: an empty pattern list resolves to the empty list without a call of
  \<^verbatim>\<open>globs\<close>; otherwise \<^verbatim>\<open>globs\<close> is called once, an error rejects the promise, and the files
  found are made absolute.\<close>

definition globFilesOrEmpty :: "env \<Rightarrow> state \<Rightarrow> string list \<Rightarrow> state \<times> (error + string list)" where
  "globFilesOrEmpty env st globsList =
     (if globsList = [] then (st, Inr [])
      else
        (st\<lparr>globLog := globLog st @ [globsList]\<rparr>,
         case globs env globsList of
           None \<Rightarrow> Inl GlobError
         | Some files \<Rightarrow> Inr (map (\<lambda>file. path_resolve env [file]) files)))"

text \<open>The body of the \<^verbatim>\<open>try\<close> block of \<^verbatim>\<open>Bundle\<close>. Both promises are created before either
  is awaited, so the file is read and the patterns are expanded even when the other of the
  two fails.\<close>

definition BundleTry :: "nat \<Rightarrow> env \<Rightarrow> state \<Rightarrow> string \<Rightarrow> string list \<Rightarrow> (state \<times> (error + BundleResult)) option" where
  "BundleTry n env st file dedupeGlobs =
     (if \<not> fs_access env file then Some (st, Inl (AccessError file))
      else
        (let contentPromise = fs_readFile env file;
             st1 = st\<lparr>readLog := readLog st @ [file]\<rparr>;
             (st2, dedupeFilesPromise) = globFilesOrEmpty env st1 dedupeGlobs
         in case contentPromise of
              None \<Rightarrow> Some (st2, Inl (ReadFileError file))
            | Some content \<Rightarrow>
                (case dedupeFilesPromise of
                   Inl e \<Rightarrow> Some (st2, Inl e)
                 | Inr dedupeFiles \<Rightarrow> bundle' n env st2 file content dedupeFiles)))"

text \<open>\<^verbatim>\<open>Bundle\<close>: the \<^verbatim>\<open>catch\<close> clause turns every exception of the body into a node that
  is not found.\<close>

definition Bundle :: "nat \<Rightarrow> env \<Rightarrow> state \<Rightarrow> string \<Rightarrow> string list \<Rightarrow> (state \<times> (error + BundleResult)) option" where
  "Bundle n env st file dedupeGlobs =
     (case BundleTry n env st file dedupeGlobs of
        None \<Rightarrow> None
      | Some (st1, Inl e) \<Rightarrow> Some (st1, Inr (BundleResult file False None None False))
      | Some (st1, Inr r) \<Rightarrow> Some (st1, Inr r))"

text \<open>
  \<^verbatim>\<open>BundleAll\<close> maps \<^verbatim>\<open>Bundle\<close> over the entries and awaits all the promises.
  The entries are taken one after the other here, in the order of the list: this is the
  schedule in which the input and output of an entry is complete before the next entry goes
  on. Other interleavings of the entries are not part of the model.
\<close>

fun BundleAll :: "nat \<Rightarrow> env \<Rightarrow> state \<Rightarrow> string list \<Rightarrow> string list \<Rightarrow> (state \<times> (error + BundleResult list)) option" where
  "BundleAll n env st [] dedupeGlobs = Some (st, Inr [])"
| "BundleAll n env st (file # files) dedupeGlobs =
     (case Bundle n env st file dedupeGlobs of
        None \<Rightarrow> None
      | Some (st1, Inl e) \<Rightarrow> Some (st1, Inl e)
      | Some (st1, Inr r) \<Rightarrow>
          (case BundleAll n env st1 files dedupeGlobs of
             None \<Rightarrow> None
           | Some (st2, Inl e) \<Rightarrow> Some (st2, Inl e)
           | Some (st2, Inr rs) \<Rightarrow> Some (st2, Inr (r # rs))))"

text \<open>A new \<^verbatim>\<open>Bundler\<close> made with the given registry; the constructor's default is the empty
  one.\<close>

definition newBundler :: "(string \<rightharpoonup> string) \<Rightarrow> state" where
  "newBundler registry =
     \<lparr>fileRegistry = registry, usedImports = Map.empty, importsByFile = Map.empty,
      readLog = [], globLog = [], importLog = []\<rparr>"

section \<open>A POSIX environment\<close>

text \<open>
  Node's \<^verbatim>\<open>path.posix\<close> functions, written after their documented behaviour, and a file
  system given by a list of absolute paths with their contents. This instance of the
  environment is what the model is run on.
\<close>

fun splitOn :: "char \<Rightarrow> string \<Rightarrow> string list" where
  "splitOn sep [] = [[]]"
| "splitOn sep (c # cs) =
     (if c = sep then [] # splitOn sep cs
      else (case splitOn sep cs of [] \<Rightarrow> [[c]] | seg # segs \<Rightarrow> (c # seg) # segs))"

fun joinWith :: "char \<Rightarrow> string list \<Rightarrow> string" where
  "joinWith sep [] = []"
| "joinWith sep [seg] = seg"
| "joinWith sep (seg # segs) = seg @ sep # joinWith sep segs"

text \<open>\<^verbatim>\<open>normalizeString\<close>, on the segments of the path: empty segments and \<^verbatim>\<open>.\<close> are dropped,
  \<^verbatim>\<open>..\<close> removes the segment before it; above the root it is dropped or kept.\<close>

fun normalizeSegments :: "bool \<Rightarrow> string list \<Rightarrow> string list \<Rightarrow> string list" where
  "normalizeSegments allowAboveRoot res [] = res"
| "normalizeSegments allowAboveRoot res (seg # segs) =
     (if seg = [] \<or> seg = ''.'' then normalizeSegments allowAboveRoot res segs
      else if seg = ''..'' then
        (if res \<noteq> [] \<and> last res \<noteq> ''..'' then normalizeSegments allowAboveRoot (butlast res) segs
         else if allowAboveRoot then normalizeSegments allowAboveRoot (res @ [''..'']) segs
         else normalizeSegments allowAboveRoot res segs)
      else normalizeSegments allowAboveRoot (res @ [seg]) segs)"

definition normalizeString :: "string \<Rightarrow> bool \<Rightarrow> string" where
  "normalizeString p allowAboveRoot =
     joinWith CHR ''/'' (normalizeSegments allowAboveRoot [] (splitOn CHR ''/'' p))"

definition isAbsolute :: "string \<Rightarrow> bool" where
  "isAbsolute p = (case p of [] \<Rightarrow> False | c # cs \<Rightarrow> c = CHR ''/'')"

text \<open>The loop of \<^verbatim>\<open>path.resolve\<close> over its arguments from the right, the working directory
  last: the joined path and whether an absolute argument was met.\<close>

fun resolveLoop :: "string list \<Rightarrow> string \<Rightarrow> string \<times> bool" where
  "resolveLoop [] resolvedPath = (resolvedPath, False)"
| "resolveLoop (p # ps) resolvedPath =
     (if p = [] then resolveLoop ps resolvedPath
      else if isAbsolute p then (p @ CHR ''/'' # resolvedPath, True)
      else resolveLoop ps (p @ CHR ''/'' # resolvedPath))"

definition posix_resolve :: "string \<Rightarrow> string list \<Rightarrow> string" where
  "posix_resolve cwd args =
     (let (resolvedPath, resolvedAbsolute) = resolveLoop (rev args @ [cwd]) [];
          normalized = normalizeString resolvedPath (\<not> resolvedAbsolute)
      in if resolvedAbsolute then CHR ''/'' # normalized
         else if normalized \<noteq> [] then normalized else ''.'')"

definition posix_normalize :: "string \<Rightarrow> string" where
  "posix_normalize p =
     (if p = [] then ''.''
      else
        (let trailingSeparator = (last p = CHR ''/'');
             normalized = normalizeString p (\<not> isAbsolute p)
         in if normalized = [] then
              (if isAbsolute p then ''/'' else if trailingSeparator then ''./'' else ''.'')
            else
              (if isAbsolute p then [CHR ''/''] else []) @ normalized @
              (if trailingSeparator then ''/'' else [])))"

definition posix_join :: "string list \<Rightarrow> string" where
  "posix_join args =
     (let joined = joinWith CHR ''/'' (filter (\<lambda>arg. arg \<noteq> []) args)
      in if joined = [] then ''.'' else posix_normalize joined)"

text \<open>\<^verbatim>\<open>path.dirname\<close>: trailing slashes are skipped, then the last segment; what is left of
  the slash before that segment is the directory. The first character is never looked at as
  a separator.\<close>

definition posix_dirname :: "string \<Rightarrow> string" where
  "posix_dirname p =
     (case p of
        [] \<Rightarrow> ''.''
      | c # cs \<Rightarrow>
          (let r = dropWhile (\<lambda>x. x \<noteq> CHR ''/'') (dropWhile (\<lambda>x. x = CHR ''/'') (rev cs))
           in if r = [] then (if c = CHR ''/'' then ''/'' else ''.'')
              else if c = CHR ''/'' \<and> length r = 1 then ''//''
              else c # rev (tl r)))"

definition posix_basename :: "string \<Rightarrow> string" where
  "posix_basename p =
     rev (takeWhile (\<lambda>x. x \<noteq> CHR ''/'') (dropWhile (\<lambda>x. x = CHR ''/'') (rev p)))"

definition posix :: "string \<Rightarrow> (string \<times> string) list \<Rightarrow> (string list \<Rightarrow> string list option) \<Rightarrow> env" where
  "posix cwd files globber =
     \<lparr>path_resolve = posix_resolve cwd,
      path_dirname = posix_dirname,
      path_basename = posix_basename,
      path_join = posix_join,
      os_EOL = [CHR 0x0A],
      fs_access = (\<lambda>p. map_of files (posix_resolve cwd [p]) \<noteq> None),
      fs_readFile = (\<lambda>p. map_of files (posix_resolve cwd [p])),
      globs = globber\<rparr>"

text \<open>Inputs of the examples: the two ways of writing a directive, and a project directory
  \<^verbatim>\<open>/p\<close> with the given files in which \<^verbatim>\<open>globs\<close> gives the same answer to every pattern list
  (\<open>None\<close>: an error).\<close>

definition singleQuoted :: "string \<Rightarrow> string" where
  "singleQuoted p = ''@import '' @ [sq] @ p @ [sq] @ '';''"


definition project :: "(string \<times> string) list \<Rightarrow> string list option \<Rightarrow> env" where
  "project files globbed = posix ''/p'' files (\<lambda>patterns. globbed)"

section \<open>Notions used in the statements\<close>

text \<open>
  The three branches of the loop body (lines 138 to 181), as one step of their own: the state
  after the branch and the node \<^verbatim>\<open>currentImport\<close>, or the exception of a rejected read or
  of the recursive call. \<open>bundleImports_Cons\<close> below shows that the loop is this step followed
  by \<open>replaceImport\<close>.
\<close>

definition importBranch :: "nat \<Rightarrow> env \<Rightarrow> string list \<Rightarrow> state \<Rightarrow> ImportData \<Rightarrow> (state \<times> (error + BundleResult)) option" where
  "importBranch n env dedupeFiles st imp =
     (if \<not> importFound imp then
        Some (st, Inr (BundleResult (fullPath imp) False None None False))
      else if fileRegistry st (fullPath imp) = None then
        (case fs_readFile env (fullPath imp) of
           None \<Rightarrow>
             Some (st\<lparr>readLog := readLog st @ [fullPath imp]\<rparr>,
                   Inl (ReadFileError (fullPath imp)))
         | Some impContent \<Rightarrow>
             (case bundle' n env (st\<lparr>readLog := readLog st @ [fullPath imp]\<rparr>) (fullPath imp)
                     impContent dedupeFiles of
                None \<Rightarrow> None
              | Some (st1, Inl e) \<Rightarrow> Some (st1, Inl e)
              | Some (st1, Inr bundledImport) \<Rightarrow>
                  Some (st1\<lparr>fileRegistry :=
                              (fileRegistry st1)(fullPath imp := bundledContent bundledImport),
                            usedImports :=
                              (if usedImports st1 (fullPath imp) = None
                               then (usedImports st1)(fullPath imp \<mapsto> Num 1)
                               else usedImports st1)\<rparr>,
                        Inr bundledImport)))
      else
        Some (st\<lparr>usedImports :=
                    (usedImports st)(fullPath imp \<mapsto> increment (usedImports st (fullPath imp)))\<rparr>,
              Inr (BundleResult (fullPath imp) True None (importsByFile st (fullPath imp)) False)))"

text \<open>The node of a file that was not found.\<close>

definition notFoundNode :: "string \<Rightarrow> BundleResult" where
  "notFoundNode p = BundleResult p False None None False"

text \<open>Two states with the same three fields of the \<^verbatim>\<open>Bundler\<close> object (the traces may
  differ), and two outcomes with the same result that leave such states behind.\<close>

definition sameBundler :: "state \<Rightarrow> state \<Rightarrow> bool" where
  "sameBundler s t \<longleftrightarrow>
     fileRegistry s = fileRegistry t \<and> usedImports s = usedImports t \<and>
     importsByFile s = importsByFile t"


text \<open>How often the trace has a path as the target of an import that was found.\<close>

definition timesReferenced :: "string \<Rightarrow> (string \<times> bool \<times> bool) list \<Rightarrow> nat" where
  "timesReferenced p log = length (filter (\<lambda>e. fst e = p \<and> fst (snd e)) log)"

text \<open>No usage counter is above the number of import sites that found its path, and every
  site that took the dedupe branch is at least the second of its path.\<close>

definition countsBounded :: "state \<Rightarrow> bool" where
  "countsBounded st \<longleftrightarrow>
     (\<forall>p k. usedImports st p = Some (Num k) \<longrightarrow> k \<le> timesReferenced p (importLog st))"

definition dedupedTwice :: "(string \<times> bool \<times> bool) list \<Rightarrow> bool" where
  "dedupedTwice log \<longleftrightarrow> (\<forall>e \<in> set log. snd (snd e) \<longrightarrow> 2 \<le> timesReferenced (fst e) log)"

definition countersSound :: "state \<Rightarrow> bool" where
  "countersSound st \<longleftrightarrow> countsBounded st \<and> dedupedTwice (importLog st)"

text \<open>The paths of imports that were found are fixed points of \<^verbatim>\<open>path.resolve\<close>.\<close>

definition stablePaths :: "env \<Rightarrow> bool" where
  "stablePaths env \<longleftrightarrow>
     (\<forall>dirname m. importFound (resolveImport env dirname m) \<longrightarrow>
        path_resolve env [fullPath (resolveImport env dirname m)] =
          fullPath (resolveImport env dirname m))"

text \<open>No entry of the registry of \<open>s\<close> is missing or changed in \<open>t\<close>.\<close>

definition registryKept :: "state \<Rightarrow> state \<Rightarrow> bool" where
  "registryKept s t \<longleftrightarrow> (\<forall>p c. fileRegistry s p = Some c \<longrightarrow> fileRegistry t p = Some c)"

text \<open>From \<open>s\<close> to \<open>t\<close> the paths \<open>new\<close> were read, none of them twice, none of them with an
  entry in the registry of \<open>s\<close>, and no entry of \<open>s\<close> was changed; \<open>readsDone\<close>: moreover each
  of them has an entry in \<open>t\<close>.\<close>

definition readsFresh :: "env \<Rightarrow> state \<Rightarrow> state \<Rightarrow> string list \<Rightarrow> bool" where
  "readsFresh env s t new \<longleftrightarrow>
     readLog t = readLog s @ new \<and> distinct new \<and>
     (\<forall>p \<in> set new. fileRegistry s p = None \<and> path_resolve env [p] = p) \<and>
     registryKept s t"

definition readsDone :: "env \<Rightarrow> state \<Rightarrow> state \<Rightarrow> string list \<Rightarrow> bool" where
  "readsDone env s t new \<longleftrightarrow> readsFresh env s t new \<and> (\<forall>p \<in> set new. fileRegistry t p \<noteq> None)"

text \<open>What a run of \<open>bundle'\<close> on the file \<open>fp\<close> leaves behind.\<close>

definition bundleReads :: "env \<Rightarrow> state \<Rightarrow> string \<Rightarrow> string \<Rightarrow> state \<Rightarrow> (error + BundleResult) \<Rightarrow> bool" where
  "bundleReads env st fp content st' r \<longleftrightarrow>
     (\<exists>new. readsFresh env st st' new \<and>
        (\<forall>p \<in> set new. p \<noteq> path_resolve env [fp]) \<and>
        (case r of Inl e \<Rightarrow> True | Inr x \<Rightarrow> \<forall>p \<in> set new. fileRegistry st' p \<noteq> None)) \<and>
     fileRegistry st' (path_resolve env [fp]) =
       (case fileRegistry st (path_resolve env [fp]) of
          None \<Rightarrow> Some (removeCommentedImports content)
        | Some c \<Rightarrow> Some c)"

text \<open>Paths in normal form: a slash, then segments joined by slashes, none of them empty,
  \<^verbatim>\<open>.\<close> or \<^verbatim>\<open>..\<close>.\<close>

definition cleanSegment :: "string \<Rightarrow> bool" where
  "cleanSegment seg \<longleftrightarrow> seg \<noteq> [] \<and> seg \<noteq> ''.'' \<and> seg \<noteq> ''..'' \<and> CHR ''/'' \<notin> set seg"

definition normalAbsolute :: "string \<Rightarrow> bool" where
  "normalAbsolute p \<longleftrightarrow> (\<exists>segs. (\<forall>seg \<in> set segs. cleanSegment seg) \<and> p = CHR ''/'' # joinWith CHR ''/'' segs)"

text \<open>The paths that can be accessed and are fixed points of \<^verbatim>\<open>path.resolve\<close>.\<close>

definition stableFiles :: "env \<Rightarrow> string set" where
  "stableFiles env = {p. fs_access env p \<and> path_resolve env [p] = p}"

section \<open>The loop body, branch by branch\<close>

declare bundle'.simps [simp del]

declare bundleImports.simps [simp del]

lemma bundleImports_Cons:
  "bundleImports n env dedupeFiles (imp # imps) st content currentImports =
     (case importBranch n env dedupeFiles st imp of
        None \<Rightarrow> None
      | Some (st1, Inl e) \<Rightarrow> Some (st1, Inl e)
      | Some (st1, Inr currentImport) \<Rightarrow>
          (case replaceImport env dedupeFiles st1 imp content currentImport of
             (st2, content1, currentImport1) \<Rightarrow>
               bundleImports n env dedupeFiles imps st2 content1
                 (currentImports @ [currentImport1])))"
  by (auto simp: bundleImports.simps(2) importBranch_def Let_def
        split: option.splits sum.splits prod.splits)

lemma bundleImports_Nil:
  "bundleImports n env dedupeFiles [] st content currentImports =
     Some (st, Inr (content, currentImports))"
  by (simp add: bundleImports.simps(1))

section \<open>Facts about the string functions\<close>

lemma stripPrefix_append: "stripPrefix p (p @ r) = Some r"
  by (induction p) auto

lemma stripPrefix_Some_iff: "stripPrefix p s = Some r \<longleftrightarrow> s = p @ r"
  using stripPrefix_Some stripPrefix_append by blast




section \<open>The bundler state and the traces\<close>

text \<open>The results of bundling depend on the three fields of the \<^verbatim>\<open>Bundler\<close> object only, not
  on the traces: two states with the same fields give the same results and leave the same
  fields behind.\<close>

lemma sameBundler_refl [simp]: "sameBundler s s"
  by (simp add: sameBundler_def)

lemma sameBundler_sym: "sameBundler s t \<Longrightarrow> sameBundler t s"
  by (simp add: sameBundler_def)






section \<open>The pattern lists given to globs\<close>

text \<open>The recursive bundle never calls \<^verbatim>\<open>globs\<close>.\<close>

lemma replaceImport_fst:
  "fst (replaceImport env dd st imp c ci) =
     st\<lparr>importLog := importLog st @ [(fullPath imp, importFound imp, shouldDedupe dd st imp)]\<rparr>"
  by (simp add: replaceImport_def Let_def)

lemma globLog_importBranch:
  assumes IH: "\<And>st fp content st' r. bundle' n env st fp content dd = Some (st', r) \<Longrightarrow> globLog st' = globLog st"
    and "importBranch n env dd st imp = Some (st', r)"
  shows "globLog st' = globLog st"
proof (cases "importFound imp \<and> fileRegistry st (fullPath imp) = None")
  case False
  then show ?thesis using assms(2) by (auto simp: importBranch_def split: if_splits)
next
  case True
  show ?thesis
  proof (cases "fs_readFile env (fullPath imp)")
    case None
    then show ?thesis using True assms(2) by (auto simp: importBranch_def)
  next
    case (Some content)
    let ?s0 = "st\<lparr>readLog := readLog st @ [fullPath imp]\<rparr>"
    from Some True assms(2) obtain s1 r1 where
      run: "bundle' n env ?s0 (fullPath imp) content dd = Some (s1, r1)"
      and "globLog st' = globLog s1"
      by (auto simp: importBranch_def split: option.splits sum.splits)
    with IH [OF run] show ?thesis by simp
  qed
qed

lemma globLog_bundleImports:
  assumes IH: "\<And>st fp content st' r. bundle' n env st fp content dd = Some (st', r) \<Longrightarrow> globLog st' = globLog st"
  shows "bundleImports n env dd imps st c cur = Some (st', r2) \<Longrightarrow> globLog st' = globLog st"
proof (induction imps arbitrary: st c cur)
  case Nil
  then show ?case by (simp add: bundleImports_Nil)
next
  case (Cons imp imps)
  show ?case
  proof (cases "importBranch n env dd st imp")
    case None
    then show ?thesis using Cons.prems by (simp add: bundleImports_Cons)
  next
    case (Some a)
    obtain s1 res where a: "a = (s1, res)" by (cases a)
    have g1: "globLog s1 = globLog st"
    proof (rule globLog_importBranch)
      show "importBranch n env dd st imp = Some (s1, res)" using Some a by simp
    qed (rule IH)
    show ?thesis
    proof (cases res)
      case (Inl e)
      then show ?thesis using Cons.prems Some a g1 by (simp add: bundleImports_Cons)
    next
      case (Inr ci)
      obtain s2 c1 ci1 where ri: "replaceImport env dd s1 imp c ci = (s2, c1, ci1)"
        by (cases "replaceImport env dd s1 imp c ci")
      have "globLog s2 = globLog s1"
        using replaceImport_fst [of env dd s1 imp c ci] ri by simp
      moreover have "bundleImports n env dd imps s2 c1 (cur @ [ci1]) = Some (st', r2)"
        using Cons.prems Some a Inr ri by (simp add: bundleImports_Cons)
      ultimately show ?thesis using Cons.IH g1 by simp
    qed
  qed
qed

lemma globLog_bundle':
  "bundle' n env st fp content dd = Some (st', r) \<Longrightarrow> globLog st' = globLog st"
proof (induction n arbitrary: st fp content st' r)
  case 0
  then show ?case by (simp add: bundle'.simps)
next
  case (Suc n)
  from Suc.prems show ?case
    by (auto simp: bundle'.simps Let_def split: option.splits sum.splits prod.splits if_splits
        dest!: globLog_bundleImports [OF Suc.IH, rotated])
qed

section \<open>The entry points\<close>

lemma bundle'_node:
  "bundle' n env st fp content dd = Some (st', Inr r) \<Longrightarrow>
     filePath r = path_resolve env [fp] \<and> found r \<and> bundledContent r \<noteq> None \<and>
     childImports r \<noteq> None \<and> \<not> deduped r \<and> importsByFile st' (filePath r) = childImports r"
  by (cases n) (auto simp: bundle'.simps Let_def split: option.splits sum.splits prod.splits)

lemma globFilesOrEmpty_same: "sameBundler st (fst (globFilesOrEmpty env st g))"
  by (simp add: globFilesOrEmpty_def sameBundler_def)





lemma Bundle_Inr: "Bundle n env st fp g = Some (st', r) \<Longrightarrow> \<exists>node. r = Inr node"
  by (auto simp: Bundle_def split: option.splits sum.splits)




lemma Bundle_node_globLog:
  assumes "Bundle n env st fp g = Some (st', Inr node)"
  shows "filePath node = (if found node then path_resolve env [fp] else fp) \<and>
         globLog st' = globLog st @ (if fs_access env fp \<and> g \<noteq> [] then [g] else [])"
proof (cases "fs_access env fp")
  case False
  then show ?thesis using assms by (auto simp: Bundle_def BundleTry_def)
next
  case True
  let ?s1 = "st\<lparr>readLog := readLog st @ [fp]\<rparr>"
  obtain s2 d where gs: "globFilesOrEmpty env ?s1 g = (s2, d)"
    by (cases "globFilesOrEmpty env ?s1 g")
  then have g2: "globLog s2 = globLog st @ (if g \<noteq> [] then [g] else [])"
    by (auto simp: globFilesOrEmpty_def split: if_splits)
  show ?thesis
  proof (cases "fs_readFile env fp")
    case None
    then show ?thesis using True gs g2 assms by (auto simp: Bundle_def BundleTry_def)
  next
    case (Some content)
    show ?thesis
    proof (cases d)
      case (Inl e)
      then show ?thesis using True Some gs g2 assms by (auto simp: Bundle_def BundleTry_def)
    next
      case (Inr dedupeFiles)
      with True Some gs assms obtain s3 r3 where
        run: "bundle' n env s2 fp content dedupeFiles = Some (s3, r3)" and st': "st' = s3"
        and node: "(case r3 of Inl e \<Rightarrow> node = BundleResult fp False None None False | Inr r \<Rightarrow> node = r)"
        by (auto simp: Bundle_def BundleTry_def split: option.splits sum.splits)
      have g3: "globLog s3 = globLog s2" using globLog_bundle' [OF run] .
      show ?thesis
      proof (cases r3)
        case (Inl e)
        then show ?thesis using node st' g3 g2 True by simp
      next
        case (Inr r)
        with run bundle'_node [of n env s2 fp content dedupeFiles s3 r]
        show ?thesis using node st' g3 g2 True by simp
      qed
    qed
  qed
qed

section \<open>Usage counters and import sites\<close>

lemma bundleImports_invariant:
  assumes run: "bundleImports n env dd imps st c cur = Some (st', r)"
    and start: "P st"
    and step: "\<And>imp s s1 ci content. imp \<in> set imps \<Longrightarrow> P s \<Longrightarrow>
                 importBranch n env dd s imp = Some (s1, Inr ci) \<Longrightarrow>
                 P (fst (replaceImport env dd s1 imp content ci))"
    and err: "\<And>imp s s1 e. imp \<in> set imps \<Longrightarrow> P s \<Longrightarrow>
                 importBranch n env dd s imp = Some (s1, Inl e) \<Longrightarrow> E s1"
  shows "case r of Inl e \<Rightarrow> E st' | Inr x \<Rightarrow> P st'"
  using run start step err
proof (induction imps arbitrary: st c cur)
  case Nil
  then show ?case by (auto simp: bundleImports_Nil)
next
  case (Cons imp imps)
  show ?case
  proof (cases "importBranch n env dd st imp")
    case None
    then show ?thesis using Cons.prems(1) by (simp add: bundleImports_Cons)
  next
    case (Some a)
    obtain s1 res where a: "a = (s1, res)" by (cases a)
    show ?thesis
    proof (cases res)
      case (Inl e)
      have "E s1" using Cons.prems(4) [of imp st s1 e] Cons.prems(2) Some a Inl by simp
      then show ?thesis using Cons.prems(1) Some a Inl by (auto simp: bundleImports_Cons)
    next
      case (Inr ci)
      obtain s2 c1 ci1 where ri: "replaceImport env dd s1 imp c ci = (s2, c1, ci1)"
        by (cases "replaceImport env dd s1 imp c ci")
      then have s2: "s2 = fst (replaceImport env dd s1 imp c ci)" by simp
      have p2: "P s2"
        unfolding s2 using Cons.prems(3) [of imp st s1 ci c] Cons.prems(2) Some a Inr by simp
      have rest: "bundleImports n env dd imps s2 c1 (cur @ [ci1]) = Some (st', r)"
        using Cons.prems(1) Some a Inr ri by (simp add: bundleImports_Cons)
      show ?thesis
      proof (rule Cons.IH [OF rest p2])
        fix imp' s s1' ci' content
        assume "imp' \<in> set imps" "P s" "importBranch n env dd s imp' = Some (s1', Inr ci')"
        then show "P (fst (replaceImport env dd s1' imp' content ci'))"
          using Cons.prems(3) [of imp' s s1' ci' content] by simp
      next
        fix imp' s s1' e
        assume "imp' \<in> set imps" "P s" "importBranch n env dd s imp' = Some (s1', Inl e)"
        then show "E s1'" using Cons.prems(4) [of imp' s s1' e] by simp
      qed
    qed
  qed
qed



lemma countersSound_readLog [simp]:
  "countersSound (st\<lparr>readLog := x\<rparr>) = countersSound st"
  by (simp add: countersSound_def countsBounded_def)



section \<open>The registry and the files read\<close>

text \<open>Every path the loop reads is the result of \<^verbatim>\<open>path.resolve\<close> or of \<^verbatim>\<open>path.join\<close> with an
  absolute directory. \<^verbatim>\<open>bundle\<close> resolves the path it is given once more before it writes
  the seed; the two keys are the same when resolved paths are fixed points of
  \<^verbatim>\<open>path.resolve\<close>, as they are on a POSIX system (\<open>stablePaths_posix\<close> below).\<close>

lemma registryKept_refl [simp]: "registryKept s s"
  by (simp add: registryKept_def)

lemma registryKept_trans: "registryKept s t \<Longrightarrow> registryKept t u \<Longrightarrow> registryKept s u"
  by (simp add: registryKept_def)

lemma registryKept_None: "registryKept s t \<Longrightarrow> fileRegistry t p = None \<Longrightarrow> fileRegistry s p = None"
  by (cases "fileRegistry s p") (auto simp: registryKept_def)

lemma readsFresh_trans:
  assumes a: "readsDone env s t n1" and b: "readsFresh env t u n2"
  shows "readsFresh env s u (n1 @ n2)"
proof -
  have "set n1 \<inter> set n2 = {}"
    using a b by (auto simp: readsDone_def readsFresh_def)
  moreover have "\<forall>p \<in> set n2. fileRegistry s p = None"
    using a b registryKept_None [of s t] by (auto simp: readsDone_def readsFresh_def)
  moreover have "registryKept s u"
    using a b by (auto simp: readsDone_def readsFresh_def intro: registryKept_trans)
  ultimately show ?thesis
    using a b by (auto simp: readsDone_def readsFresh_def)
qed

lemma readsDone_trans:
  assumes a: "readsDone env s t n1" and b: "readsDone env t u n2"
  shows "readsDone env s u (n1 @ n2)"
proof -
  have "readsFresh env s u (n1 @ n2)"
    using readsFresh_trans [OF a] b by (simp add: readsDone_def)
  moreover have "\<forall>p \<in> set n1. fileRegistry u p \<noteq> None"
    using a b by (fastforce simp: readsDone_def readsFresh_def registryKept_def)
  ultimately show ?thesis using b by (auto simp: readsDone_def)
qed

lemma readsDone_same:
  "readLog t = readLog s \<Longrightarrow> fileRegistry t = fileRegistry s \<Longrightarrow> readsDone env s t []"
  by (simp add: readsDone_def readsFresh_def registryKept_def)

lemma reads_step:
  assumes IH: "\<And>st fp content st' r. bundle' n env st fp content dd = Some (st', r) \<Longrightarrow>
                 bundleReads env st fp content st' r"
    and stable: "importFound imp \<longrightarrow> path_resolve env [fullPath imp] = fullPath imp"
    and br: "importBranch n env dd s imp = Some (u, res)"
  shows "\<exists>new. case res of Inl e \<Rightarrow> readsFresh env s u new
         | Inr ci \<Rightarrow> readsDone env s (fst (replaceImport env dd u imp content ci)) new"
proof -
  let ?p = "fullPath imp"
  show ?thesis
  proof (cases "importFound imp \<and> fileRegistry s ?p = None")
    case False
    have "\<exists>ci. res = Inr ci \<and> readLog u = readLog s \<and> fileRegistry u = fileRegistry s"
    proof (cases "importFound imp")
      case notfound: False
      then show ?thesis using br by (auto simp: importBranch_def)
    next
      case True
      with False have "fileRegistry s ?p \<noteq> None" by simp
      with True show ?thesis using br by (auto simp: importBranch_def)
    qed
    then obtain ci where "res = Inr ci" "readLog u = readLog s" "fileRegistry u = fileRegistry s"
      by blast
    then have "readsDone env s (fst (replaceImport env dd u imp content ci)) []"
      by (intro readsDone_same) (simp_all add: replaceImport_fst)
    then show ?thesis using \<open>res = Inr ci\<close> by auto
  next
    case True
    then have found: "importFound imp" and fresh: "fileRegistry s ?p = None"
      and fixed: "path_resolve env [?p] = ?p" using stable by auto
    let ?s0 = "s\<lparr>readLog := readLog s @ [?p]\<rparr>"
    show ?thesis
    proof (cases "fs_readFile env ?p")
      case None
      with br found fresh have "u = ?s0" "res = Inl (ReadFileError ?p)"
        by (auto simp: importBranch_def)
      moreover have "readsFresh env s ?s0 [?p]"
        by (simp add: readsFresh_def registryKept_def fresh fixed)
      ultimately show ?thesis by auto
    next
      case (Some impContent)
      from br found fresh Some obtain t r1 where
        run: "bundle' n env ?s0 ?p impContent dd = Some (t, r1)"
        by (auto simp: importBranch_def split: option.splits)
      have "bundleReads env ?s0 ?p impContent t r1" using IH [OF run] .
      then have "\<exists>new. readsFresh env ?s0 t new \<and> (\<forall>q \<in> set new. q \<noteq> ?p) \<and>
          (case r1 of Inl e \<Rightarrow> True | Inr x \<Rightarrow> \<forall>q \<in> set new. fileRegistry t q \<noteq> None)"
        by (simp add: bundleReads_def fixed)
      then obtain new where
        new: "readsFresh env ?s0 t new" and notp: "\<forall>q \<in> set new. q \<noteq> ?p"
        and registered: "case r1 of Inl e \<Rightarrow> True | Inr x \<Rightarrow> \<forall>q \<in> set new. fileRegistry t q \<noteq> None"
        by blast
      have log: "readLog t = readLog s @ ?p # new"
        using new by (simp add: readsFresh_def)
      have dist: "distinct (?p # new)"
        using new notp by (auto simp: readsFresh_def)
      have fr0: "\<forall>q \<in> set new. fileRegistry s q = None \<and> path_resolve env [q] = q"
        using new by (simp add: readsFresh_def)
      have kept: "registryKept s t"
        using new by (simp add: readsFresh_def registryKept_def)
      have fr: "readsFresh env s t (?p # new)"
        unfolding readsFresh_def using log dist fr0 kept fresh fixed by simp
      show ?thesis
      proof (cases r1)
        case (Inl e)
        with br found fresh Some run have "u = t" "res = Inl e"
          by (auto simp: importBranch_def)
        with fr show ?thesis by auto
      next
        case (Inr bi)
        with br found fresh Some run have
          u: "fileRegistry u = (fileRegistry t)(?p := bundledContent bi)" "readLog u = readLog t"
          and res: "res = Inr bi"
          by (auto simp: importBranch_def)
        have bc: "bundledContent bi \<noteq> None"
          using bundle'_node [of n env ?s0 ?p impContent dd t bi] run Inr by simp
        let ?u2 = "fst (replaceImport env dd u imp content bi)"
        have u2: "fileRegistry ?u2 = (fileRegistry t)(?p := bundledContent bi)"
          "readLog ?u2 = readLog s @ ?p # new"
          using u log by (simp_all add: replaceImport_fst)
        have kept2: "registryKept s ?u2"
          unfolding registryKept_def
        proof (intro allI impI)
          fix q c assume q: "fileRegistry s q = Some c"
          with fresh have "q \<noteq> ?p" by auto
          moreover from q kept have "fileRegistry t q = Some c" by (simp add: registryKept_def)
          ultimately show "fileRegistry ?u2 q = Some c" by (simp add: u2(1))
        qed
        have reg2: "\<forall>q \<in> set (?p # new). fileRegistry ?u2 q \<noteq> None"
          using registered Inr bc by (simp add: u2(1))
        have "readsDone env s ?u2 (?p # new)"
          unfolding readsDone_def readsFresh_def
          using reg2 u2(2) dist fr0 kept2 fresh fixed by simp
        with res show ?thesis by auto
      qed
    qed
  qed
qed

lemma reads_loop:
  assumes IH: "\<And>st fp content st' r. bundle' n env st fp content dd = Some (st', r) \<Longrightarrow>
                 bundleReads env st fp content st' r"
    and stable: "\<forall>imp \<in> set imps. importFound imp \<longrightarrow> path_resolve env [fullPath imp] = fullPath imp"
    and run: "bundleImports n env dd imps st c cur = Some (st', r)"
  shows "\<exists>new. case r of Inl e \<Rightarrow> readsFresh env st st' new | Inr x \<Rightarrow> readsDone env st st' new"
proof -
  have "case r of Inl e \<Rightarrow> (\<exists>new. readsFresh env st st' new)
        | Inr x \<Rightarrow> (\<exists>new. readsDone env st st' new)"
  proof (rule bundleImports_invariant
      [where P = "\<lambda>s. \<exists>new. readsDone env st s new" and E = "\<lambda>s. \<exists>new. readsFresh env st s new", OF run])
    show "\<exists>new. readsDone env st st new"
      using readsDone_same [of st st env] by blast
  next
    fix imp s s1 ci content
    assume imp: "imp \<in> set imps" and "\<exists>new. readsDone env st s new"
      and br: "importBranch n env dd s imp = Some (s1, Inr ci)"
    then obtain n1 where n1: "readsDone env st s n1" by blast
    from reads_step [OF IH _ br, of content] imp stable
    obtain n2 where "readsDone env s (fst (replaceImport env dd s1 imp content ci)) n2" by auto
    from readsDone_trans [OF n1 this]
    show "\<exists>new. readsDone env st (fst (replaceImport env dd s1 imp content ci)) new" by blast
  next
    fix imp s s1 e
    assume imp: "imp \<in> set imps" and "\<exists>new. readsDone env st s new"
      and br: "importBranch n env dd s imp = Some (s1, Inl e)"
    then obtain n1 where n1: "readsDone env st s n1" by blast
    from reads_step [OF IH _ br] imp stable
    obtain n2 where "readsFresh env s s1 n2" by auto
    from readsFresh_trans [OF n1 this]
    show "\<exists>new. readsFresh env st s1 new" by blast
  qed
  then show ?thesis by (cases r) auto
qed

lemma reads_bundle':
  assumes "stablePaths env"
  shows "bundle' n env st fp content dd = Some (st', r) \<Longrightarrow> bundleReads env st fp content st' r"
proof (induction n arbitrary: st fp content st' r)
  case 0
  then show ?case by (simp add: bundle'.simps)
next
  case (Suc n)
  let ?k = "path_resolve env [fp]"
  let ?c1 = "removeCommentedImports content"
  let ?s1 = "if fileRegistry st ?k = None then st\<lparr>fileRegistry := (fileRegistry st)(?k \<mapsto> ?c1)\<rparr> else st"
  let ?imps = "map (resolveImport env (path_dirname env ?k)) (getAllMatches ?c1)"
  have stable: "\<forall>imp \<in> set ?imps. importFound imp \<longrightarrow> path_resolve env [fullPath imp] = fullPath imp"
    using assms by (auto simp: stablePaths_def)
  from Suc.prems obtain s2 r2 where
    loop: "bundleImports n env dd ?imps ?s1 ?c1 [] = Some (s2, r2)"
    and st': "fileRegistry st' = fileRegistry s2" "readLog st' = readLog s2"
    and r: "case r2 of Inl e \<Rightarrow> r = Inl e | Inr x \<Rightarrow> \<exists>y. r = Inr y"
    by (auto simp: bundle'.simps Let_def split: option.splits sum.splits prod.splits)
  from reads_loop [OF Suc.IH stable loop] obtain new where
    new: "case r2 of Inl e \<Rightarrow> readsFresh env ?s1 s2 new | Inr x \<Rightarrow> readsDone env ?s1 s2 new"
    by blast
  then have fr: "readsFresh env ?s1 s2 new"
    by (cases r2) (auto simp: readsDone_def)
  have key1: "fileRegistry ?s1 ?k =
       (case fileRegistry st ?k of None \<Rightarrow> Some ?c1 | Some c \<Rightarrow> Some c)"
    by (auto split: option.splits)
  have k1: "registryKept st ?s1"
    by (auto simp: registryKept_def)
  have l1: "readLog ?s1 = readLog st"
    by simp
  have log: "readLog st' = readLog st @ new"
    using fr l1 st'(2) by (simp add: readsFresh_def)
  have dist: "distinct new"
    using fr by (simp add: readsFresh_def)
  have fresh1: "\<forall>p \<in> set new. fileRegistry ?s1 p = None \<and> path_resolve env [p] = p"
    using fr by (simp add: readsFresh_def)
  have fresh: "\<forall>p \<in> set new. fileRegistry st p = None \<and> path_resolve env [p] = p"
    using fresh1 registryKept_None [OF k1] by blast
  have kept12: "registryKept ?s1 s2"
    using fr by (simp add: readsFresh_def)
  have kept: "registryKept st st'"
    using registryKept_trans [OF k1 kept12] st'(1) by (simp add: registryKept_def)
  have a: "readsFresh env st st' new"
    unfolding readsFresh_def using log dist fresh kept by simp
  have b: "\<forall>p \<in> set new. p \<noteq> ?k"
  proof
    fix p assume "p \<in> set new"
    with fresh1 have "fileRegistry ?s1 p = None" by blast
    moreover have "fileRegistry ?s1 ?k \<noteq> None" using key1 by (simp split: option.splits)
    ultimately show "p \<noteq> ?k" by auto
  qed
  have c: "case r of Inl e \<Rightarrow> True | Inr x \<Rightarrow> \<forall>p \<in> set new. fileRegistry st' p \<noteq> None"
    using new r st'(1) by (cases r2) (auto simp: readsDone_def)
  have "\<exists>c. fileRegistry ?s1 ?k = Some c" using key1 by (simp split: option.splits)
  then obtain c0 where c0: "fileRegistry ?s1 ?k = Some c0" by blast
  with kept12 have "fileRegistry s2 ?k = Some c0" by (simp add: registryKept_def)
  with c0 key1 st'(1) have d: "fileRegistry st' ?k =
      (case fileRegistry st ?k of None \<Rightarrow> Some ?c1 | Some c \<Rightarrow> Some c)"
    by simp
  show ?case unfolding bundleReads_def using a b c d by blast
qed

section \<open>Resolved paths on a POSIX system\<close>

text \<open>With an absolute working directory, \<^verbatim>\<open>path.resolve\<close> returns a slash followed by
  segments that are joined by slashes, none of them empty, \<^verbatim>\<open>.\<close> or \<^verbatim>\<open>..\<close>; such a path is
  a fixed point of \<^verbatim>\<open>path.resolve\<close>, and the underscored candidate built from it has the
  same form.\<close>

lemma splitOn_nonempty: "splitOn sep s \<noteq> []"
  by (induction s) (auto split: list.splits)

lemma splitOn_no_sep: "sep \<notin> set a \<Longrightarrow> splitOn sep a = [a]"
  by (induction a) auto

lemma splitOn_append_sep: "sep \<notin> set a \<Longrightarrow> splitOn sep (a @ sep # b) = a # splitOn sep b"
  by (induction a) auto

lemma splitOn_segments: "seg \<in> set (splitOn sep s) \<Longrightarrow> sep \<notin> set seg"
proof (induction s arbitrary: seg)
  case Nil
  then show ?case by simp
next
  case (Cons c s)
  then show ?case
    by (cases "splitOn sep s") (auto split: if_splits)
qed

lemma joinWith_snoc:
  "joinWith sep (segs @ [l]) = (if segs = [] then l else joinWith sep segs @ sep # l)"
  by (induction sep segs rule: joinWith.induct) auto

lemma joinWith_Cons:
  "joinWith sep (seg # segs) = (if segs = [] then seg else seg @ sep # joinWith sep segs)"
  by (cases segs) auto

lemma joinWith_nonempty: "segs \<noteq> [] \<Longrightarrow> \<forall>seg \<in> set segs. seg \<noteq> [] \<Longrightarrow> joinWith sep segs \<noteq> []"
  by (cases segs) (auto simp: joinWith_Cons)

lemma splitOn_joinWith_sep:
  "\<forall>seg \<in> set segs. sep \<notin> set seg \<Longrightarrow>
     splitOn sep (joinWith sep segs @ sep # b) = (if segs = [] then [[]] else segs) @ splitOn sep b"
proof (induction sep segs rule: joinWith.induct)
  case (1 sep)
  show ?case by simp
next
  case (2 sep seg)
  then show ?case by (simp add: splitOn_append_sep)
next
  case (3 sep seg v va)
  then show ?case by (simp add: splitOn_append_sep)
qed

lemma normalizeSegments_append:
  "normalizeSegments a res (xs @ ys) = normalizeSegments a (normalizeSegments a res xs) ys"
  by (induction xs arbitrary: res) auto

lemma normalizeSegments_clean:
  "\<forall>seg \<in> set segs. cleanSegment seg \<Longrightarrow> normalizeSegments a res segs = res @ segs"
  by (induction segs arbitrary: res) (auto simp: cleanSegment_def)

lemma normalizeSegments_result_clean:
  "\<forall>seg \<in> set xs. CHR ''/'' \<notin> set seg \<Longrightarrow> \<forall>seg \<in> set res. cleanSegment seg \<Longrightarrow>
     \<forall>seg \<in> set (normalizeSegments False res xs). cleanSegment seg"
proof (induction xs arbitrary: res)
  case Nil
  then show ?case by simp
next
  case (Cons x xs)
  have bl: "\<forall>seg \<in> set (butlast res). cleanSegment seg"
    using Cons.prems(2) by (auto dest: in_set_butlastD)
  have sn: "\<forall>seg \<in> set (res @ [x]). cleanSegment seg" if "x \<noteq> []" "x \<noteq> ''.''" "x \<noteq> ''..''"
    using Cons.prems that by (auto simp: cleanSegment_def)
  show ?case
    using Cons.IH [of res] Cons.IH [OF _ bl] Cons.IH [OF _ sn] Cons.prems
    by auto
qed

lemma resolveLoop_absolute:
  "isAbsolute cwd \<Longrightarrow> snd (resolveLoop (args @ [cwd]) acc) = True"
  by (induction args arbitrary: acc) (auto simp: isAbsolute_def)

lemma posix_resolve_normal:
  assumes "isAbsolute cwd"
  shows "normalAbsolute (posix_resolve cwd args)"
proof -
  obtain rp ab where rl: "resolveLoop (rev args @ [cwd]) [] = (rp, ab)"
    by (cases "resolveLoop (rev args @ [cwd]) []")
  with resolveLoop_absolute [OF assms, of "rev args" "[]"] have ab: "ab = True" by simp
  have "\<forall>seg \<in> set (normalizeSegments False [] (splitOn CHR ''/'' rp)). cleanSegment seg"
    by (rule normalizeSegments_result_clean) (auto dest: splitOn_segments)
  then show ?thesis
    using rl ab by (auto simp: posix_resolve_def normalizeString_def normalAbsolute_def)
qed

lemma normalize_rendered:
  assumes "\<forall>seg \<in> set segs. cleanSegment seg"
  shows "normalizeSegments False [] (splitOn CHR ''/'' (CHR ''/'' # joinWith CHR ''/'' segs @ ''/'')) = segs"
proof -
  have nosep: "\<forall>seg \<in> set segs. CHR ''/'' \<notin> set seg"
    using assms by (auto simp: cleanSegment_def)
  have "splitOn CHR ''/'' (CHR ''/'' # joinWith CHR ''/'' segs @ ''/'') =
      [] # (if segs = [] then [[]] else segs) @ [[]]"
    using splitOn_joinWith_sep [OF nosep, of "[]"] by simp
  then show ?thesis
    using normalizeSegments_clean [OF assms, of False "[]"]
    by (cases "segs = []") (simp_all add: normalizeSegments_append)
qed

lemma posix_resolve_fixed:
  assumes "normalAbsolute p"
  shows "posix_resolve cwd [p] = p"
proof -
  from assms obtain segs where segs: "\<forall>seg \<in> set segs. cleanSegment seg"
    and p: "p = CHR ''/'' # joinWith CHR ''/'' segs"
    by (auto simp: normalAbsolute_def)
  have "resolveLoop [p, cwd] [] = (p @ ''/'', True)"
    using p by (simp add: isAbsolute_def)
  then show ?thesis
    using normalize_rendered [OF segs] p
    by (simp add: posix_resolve_def normalizeString_def)
qed

lemma takeWhile_to_sep: "sep \<notin> set a \<Longrightarrow> takeWhile (\<lambda>x. x \<noteq> sep) (a @ sep # b) = a"
  by (induction a) auto

lemma dropWhile_to_sep: "sep \<notin> set a \<Longrightarrow> dropWhile (\<lambda>x. x \<noteq> sep) (a @ sep # b) = sep # b"
  by (induction a) auto

lemma dropWhile_no_sep: "sep \<notin> set a \<Longrightarrow> dropWhile (\<lambda>x. x \<noteq> sep) a = []"
  by (induction a) auto

lemma rendered_snoc:
  "CHR ''/'' # joinWith CHR ''/'' (segs @ [l]) = (CHR ''/'' # joinWith CHR ''/'' segs) @
     (if segs = [] then l else CHR ''/'' # l)"
  by (simp add: joinWith_snoc)

lemma posix_basename_rendered:
  assumes "\<forall>seg \<in> set segs. cleanSegment seg"
  shows "posix_basename (CHR ''/'' # joinWith CHR ''/'' segs) = (if segs = [] then [] else last segs)"
proof (cases segs rule: rev_cases)
  case Nil
  then show ?thesis by (simp add: posix_basename_def)
next
  case (snoc init l)
  with assms have l: "l \<noteq> []" "CHR ''/'' \<notin> set l" by (auto simp: cleanSegment_def)
  then obtain x xs where rl: "rev l = x # xs" "x \<noteq> CHR ''/''"
    by (cases "rev l") auto
  let ?X = "if init = [] then [] else CHR ''/'' # rev (joinWith CHR ''/'' init)"
  have r: "rev (CHR ''/'' # joinWith CHR ''/'' segs) = rev l @ ?X @ ''/''"
    using snoc by (simp add: joinWith_snoc)
  have d: "dropWhile (\<lambda>x. x = CHR ''/'') (rev l @ ?X @ ''/'') = rev l @ ?X @ ''/''"
    using rl by simp
  have t: "takeWhile (\<lambda>x. x \<noteq> CHR ''/'') (rev l @ ?X @ ''/'') = rev l"
    using l takeWhile_to_sep [of "CHR ''/''" "rev l"] by auto
  show ?thesis
    unfolding posix_basename_def r d t using snoc by simp
qed

lemma posix_dirname_rendered:
  assumes "\<forall>seg \<in> set segs. cleanSegment seg"
  shows "posix_dirname (CHR ''/'' # joinWith CHR ''/'' segs) = CHR ''/'' # joinWith CHR ''/'' (butlast segs)"
proof (cases segs rule: rev_cases)
  case Nil
  then show ?thesis by (simp add: posix_dirname_def)
next
  case (snoc init l)
  with assms have l: "l \<noteq> []" "CHR ''/'' \<notin> set l" by (auto simp: cleanSegment_def)
  then obtain x xs where rl: "rev l = x # xs" "x \<noteq> CHR ''/''"
    by (cases "rev l") auto
  let ?J = "joinWith CHR ''/'' segs"
  let ?X = "if init = [] then [] else CHR ''/'' # rev (joinWith CHR ''/'' init)"
  have r: "rev ?J = rev l @ ?X"
    using snoc by (simp add: joinWith_snoc)
  have d: "dropWhile (\<lambda>x. x = CHR ''/'') (rev l @ ?X) = rev l @ ?X"
    using rl by simp
  have t: "dropWhile (\<lambda>x. x \<noteq> CHR ''/'') (rev l @ ?X) = ?X"
    using l dropWhile_to_sep [of "CHR ''/''" "rev l"] dropWhile_no_sep [of "CHR ''/''" "rev l"]
    by auto
  have rr: "dropWhile (\<lambda>x. x \<noteq> CHR ''/'') (dropWhile (\<lambda>x. x = CHR ''/'') (rev ?J)) = ?X"
    unfolding r d t ..
  have bl: "butlast segs = init" using snoc by simp
  have dn: "posix_dirname (CHR ''/'' # ?J) =
      (if ?X = [] then ''/'' else if length ?X = 1 then ''//'' else CHR ''/'' # rev (tl ?X))"
    unfolding posix_dirname_def list.case Let_def rr by simp
  show ?thesis
  proof (cases "init = []")
    case True
    then show ?thesis unfolding dn bl by simp
  next
    case False
    then have "joinWith CHR ''/'' init \<noteq> []"
      using assms snoc by (intro joinWith_nonempty) (auto simp: cleanSegment_def)
    with False show ?thesis unfolding dn bl by simp
  qed
qed

lemma posix_join_rendered:
  assumes "\<forall>seg \<in> set init. cleanSegment seg" and "cleanSegment l"
  shows "posix_join [CHR ''/'' # joinWith CHR ''/'' init, l] = CHR ''/'' # joinWith CHR ''/'' (init @ [l])"
proof -
  have nosep: "\<forall>seg \<in> set init. CHR ''/'' \<notin> set seg"
    using assms by (auto simp: cleanSegment_def)
  have l: "l \<noteq> []" "CHR ''/'' \<notin> set l" using assms(2) by (auto simp: cleanSegment_def)
  let ?j = "CHR ''/'' # joinWith CHR ''/'' init @ CHR ''/'' # l"
  have joined: "joinWith CHR ''/'' (filter (\<lambda>arg. arg \<noteq> []) [CHR ''/'' # joinWith CHR ''/'' init, l]) = ?j"
    using l by simp
  have sp: "splitOn CHR ''/'' ?j = [] # (if init = [] then [[]] else init) @ [l]"
    using splitOn_joinWith_sep [OF nosep, of l] l by (simp add: splitOn_no_sep)
  have all: "\<forall>seg \<in> set (init @ [l]). cleanSegment seg" using assms by simp
  have norm: "normalizeSegments False [] (splitOn CHR ''/'' ?j) = init @ [l]"
    unfolding sp using normalizeSegments_clean [OF all, of False "[]"]
    by (cases "init = []") (simp_all add: normalizeSegments_append)
  have "last l \<noteq> CHR ''/''" using l last_in_set [of l] by metis
  moreover have "last ?j = last l" using l by simp
  ultimately have last: "last ?j \<noteq> CHR ''/''" by simp
  have ne: "joinWith CHR ''/'' (init @ [l]) \<noteq> []"
    using l by (simp add: joinWith_snoc)
  have ab: "isAbsolute ?j" by (simp add: isAbsolute_def)
  have ns: "normalizeString ?j False = joinWith CHR ''/'' (init @ [l])"
    by (simp only: normalizeString_def norm)
  have pn: "posix_normalize ?j = CHR ''/'' # joinWith CHR ''/'' (init @ [l])"
    unfolding posix_normalize_def Let_def using ab ns last ne by simp
  show ?thesis
    unfolding posix_join_def joined Let_def pn by simp
qed

lemma underscored_normal:
  assumes "normalAbsolute c"
  shows "normalAbsolute (posix_join [posix_dirname c, CHR ''_'' # posix_basename c])"
proof -
  from assms obtain segs where segs: "\<forall>seg \<in> set segs. cleanSegment seg"
    and c: "c = CHR ''/'' # joinWith CHR ''/'' segs"
    by (auto simp: normalAbsolute_def)
  let ?l = "CHR ''_'' # posix_basename c"
  have "CHR ''/'' \<notin> set (posix_basename c)"
    using posix_basename_rendered [OF segs] segs c
    by (cases "segs = []") (auto simp: cleanSegment_def)
  then have l: "cleanSegment ?l" by (simp add: cleanSegment_def)
  have init: "\<forall>seg \<in> set (butlast segs). cleanSegment seg"
    using segs by (auto dest: in_set_butlastD)
  have "posix_join [posix_dirname c, ?l] = CHR ''/'' # joinWith CHR ''/'' (butlast segs @ [?l])"
    unfolding c posix_dirname_rendered [OF segs]
    using posix_join_rendered [OF init, of "CHR ''_'' # posix_basename (CHR ''/'' # joinWith CHR ''/'' segs)"] l c
    by simp
  moreover have "\<forall>seg \<in> set (butlast segs @ [?l]). cleanSegment seg" using init l by simp
  ultimately show ?thesis unfolding normalAbsolute_def by blast
qed

lemma stablePaths_posix:
  assumes "isAbsolute cwd"
  shows "stablePaths (posix cwd files globber)"
  unfolding stablePaths_def
proof (intro allI impI)
  fix dirname m
  let ?env = "posix cwd files globber"
  let ?imp = "resolveImport ?env dirname m"
  let ?name = "if notContains (snd m) FILE_EXTENSION then snd m @ FILE_EXTENSION else snd m"
  let ?c = "posix_resolve cwd [dirname, ?name]"
  have c: "normalAbsolute ?c" using posix_resolve_normal [OF assms] .
  have "fullPath ?imp = ?c \<or> fullPath ?imp = posix_join [posix_dirname ?c, CHR ''_'' # posix_basename ?c]"
    by (simp add: resolveImport_def Let_def posix_def)
  then have "normalAbsolute (fullPath ?imp)"
    using c underscored_normal [OF c] by auto
  then show "path_resolve ?env [fullPath ?imp] = fullPath ?imp"
    using posix_resolve_fixed [of "fullPath ?imp" cwd] by (simp add: posix_def)
qed

section \<open>Counters and reads of a whole run\<close>





section \<open>Enough fuel\<close>

text \<open>Each recursive call of \<^verbatim>\<open>bundle\<close> is on a path that can be accessed, is a fixed point of
  \<^verbatim>\<open>path.resolve\<close> and has no entry in the registry, and the call gives it one at once. With
  finitely many such paths the recursion is no deeper than their number: a bound above it
  is never too small.\<close>

lemma found_accessible: "importFound (resolveImport env dirname m) \<Longrightarrow>
    fs_access env (fullPath (resolveImport env dirname m))"
  by (auto simp: resolveImport_def Let_def split: if_splits)

lemma importBranch_returns:
  assumes fin: "finite (stableFiles env)"
    and IH: "\<And>st fp c. card (stableFiles env - dom (fileRegistry st) - {path_resolve env [fp]}) < n \<Longrightarrow>
                bundle' n env st fp c dd \<noteq> None"
    and imp: "importFound imp \<longrightarrow> fullPath imp \<in> stableFiles env"
    and bound: "card (stableFiles env - dom (fileRegistry s)) \<le> n"
  shows "importBranch n env dd s imp \<noteq> None"
proof (cases "importFound imp \<and> fileRegistry s (fullPath imp) = None")
  case False
  then show ?thesis by (auto simp: importBranch_def)
next
  case True
  let ?p = "fullPath imp"
  let ?s0 = "s\<lparr>readLog := readLog s @ [?p]\<rparr>"
  from True imp have p: "?p \<in> stableFiles env - dom (fileRegistry s)" "path_resolve env [?p] = ?p"
    by (auto simp: stableFiles_def)
  have "card (stableFiles env - dom (fileRegistry s) - {?p}) < card (stableFiles env - dom (fileRegistry s))"
    using p(1) fin by (intro card_Diff1_less) auto
  with bound have "card (stableFiles env - dom (fileRegistry ?s0) - {path_resolve env [?p]}) < n"
    using p(2) by simp
  from IH [OF this] have ret: "bundle' n env ?s0 ?p c dd \<noteq> None" for c .
  show ?thesis
  proof (cases "fs_readFile env ?p")
    case None
    then show ?thesis using True by (simp add: importBranch_def)
  next
    case (Some impContent)
    from ret [of impContent] obtain t r1 where "bundle' n env ?s0 ?p impContent dd = Some (t, r1)"
      by (cases "bundle' n env ?s0 ?p impContent dd") auto
    then show ?thesis using True Some by (cases r1) (simp_all add: importBranch_def)
  qed
qed

lemma bundleImports_returns:
  assumes stable: "stablePaths env" and fin: "finite (stableFiles env)"
    and IH: "\<And>st fp c. card (stableFiles env - dom (fileRegistry st) - {path_resolve env [fp]}) < n \<Longrightarrow>
                bundle' n env st fp c dd \<noteq> None"
  shows "\<forall>imp \<in> set imps. importFound imp \<longrightarrow> fullPath imp \<in> stableFiles env \<Longrightarrow>
         card (stableFiles env - dom (fileRegistry s)) \<le> n \<Longrightarrow>
         bundleImports n env dd imps s c cur \<noteq> None"
proof (induction imps arbitrary: s c cur)
  case Nil
  show ?case by (simp add: bundleImports_Nil)
next
  case (Cons imp imps)
  have i: "importFound imp \<longrightarrow> fullPath imp \<in> stableFiles env" using Cons.prems(1) by simp
  from importBranch_returns [OF fin IH i Cons.prems(2)]
  obtain u res where br: "importBranch n env dd s imp = Some (u, res)" by (cases "importBranch n env dd s imp") auto
  show ?case
  proof (cases res)
    case (Inl e)
    then show ?thesis using br by (simp add: bundleImports_Cons)
  next
    case (Inr ci)
    obtain s2 c1 ci1 where ri: "replaceImport env dd u imp c ci = (s2, c1, ci1)"
      by (cases "replaceImport env dd u imp c ci")
    then have s2: "s2 = fst (replaceImport env dd u imp c ci)" by simp
    have fixedp: "importFound imp \<longrightarrow> path_resolve env [fullPath imp] = fullPath imp"
      using i by (auto simp: stableFiles_def)
    have rb: "bundle' n env st fp content dd = Some (st', r) \<Longrightarrow> bundleReads env st fp content st' r"
      for st fp content st' r
      by (rule reads_bundle' [OF stable])
    from reads_step [where content = c, OF rb fixedp br] Inr
    obtain new where "readsDone env s s2 new" unfolding s2 by auto
    then have "registryKept s s2" by (simp add: readsDone_def readsFresh_def)
    then have "dom (fileRegistry s) \<subseteq> dom (fileRegistry s2)"
      by (auto simp: registryKept_def)
    then have "card (stableFiles env - dom (fileRegistry s2)) \<le> card (stableFiles env - dom (fileRegistry s))"
      using fin by (intro card_mono) auto
    with Cons.prems(2) have b2: "card (stableFiles env - dom (fileRegistry s2)) \<le> n" by simp
    have "bundleImports n env dd imps s2 c1 (cur @ [ci1]) \<noteq> None"
      using Cons.IH [OF _ b2] Cons.prems(1) by simp
    then show ?thesis using br Inr ri by (simp add: bundleImports_Cons)
  qed
qed

lemma bundle'_returns:
  assumes stable: "stablePaths env" and fin: "finite (stableFiles env)"
  shows "card (stableFiles env - dom (fileRegistry st) - {path_resolve env [fp]}) < n \<Longrightarrow>
         bundle' n env st fp c dd \<noteq> None"
proof (induction n arbitrary: st fp c)
  case 0
  then show ?case by simp
next
  case (Suc n)
  let ?k = "path_resolve env [fp]"
  let ?c1 = "removeCommentedImports c"
  let ?s1 = "if fileRegistry st ?k = None then st\<lparr>fileRegistry := (fileRegistry st)(?k \<mapsto> ?c1)\<rparr> else st"
  let ?imps = "map (resolveImport env (path_dirname env ?k)) (getAllMatches ?c1)"
  have imps: "\<forall>imp \<in> set ?imps. importFound imp \<longrightarrow> fullPath imp \<in> stableFiles env"
    using stable found_accessible [of env] by (auto simp: stableFiles_def stablePaths_def)
  have "dom (fileRegistry ?s1) = insert ?k (dom (fileRegistry st))"
    by (auto split: if_splits)
  then have "stableFiles env - dom (fileRegistry ?s1) = stableFiles env - dom (fileRegistry st) - {?k}"
    by auto
  with Suc.prems have b: "card (stableFiles env - dom (fileRegistry ?s1)) \<le> n" by simp
  from bundleImports_returns [where c = ?c1 and cur = "[]", OF stable fin Suc.IH imps b]
  obtain s2 r2 where loop: "bundleImports n env dd ?imps ?s1 ?c1 [] = Some (s2, r2)"
    by (cases "bundleImports n env dd ?imps ?s1 ?c1 []") auto
  have e: "bundle' (Suc n) env st fp c dd =
      (case bundleImports n env dd ?imps ?s1 ?c1 [] of None \<Rightarrow> None
       | Some (st2, Inl e) \<Rightarrow> Some (st2, Inl e)
       | Some (st2, Inr (content2, cis)) \<Rightarrow>
           Some (st2\<lparr>importsByFile := (importsByFile st2)(?k \<mapsto> cis)\<rparr>,
                 Inr (BundleResult ?k True (Some content2) (Some cis) False)))"
    by (simp add: bundle'.simps Let_def)
  show ?case unfolding e loop by (cases r2) (auto split: prod.splits)
qed

lemma Bundle_returns:
  assumes stable: "stablePaths env" and fin: "finite (stableFiles env)"
    and n: "card (stableFiles env) < n"
  shows "Bundle n env st f g \<noteq> None"
proof -
  have "bundle' n env s f c dd \<noteq> None" for s c dd
  proof (rule bundle'_returns [OF stable fin])
    have "card (stableFiles env - dom (fileRegistry s) - {path_resolve env [f]}) \<le> card (stableFiles env)"
      using fin by (intro card_mono) auto
    with n show "card (stableFiles env - dom (fileRegistry s) - {path_resolve env [f]}) < n" by simp
  qed
  note ret = this
  show ?thesis
  proof (cases "fs_access env f")
    case False
    then show ?thesis by (simp add: Bundle_def BundleTry_def)
  next
    case True
    obtain s2 d where gs: "globFilesOrEmpty env (st\<lparr>readLog := readLog st @ [f]\<rparr>) g = (s2, d)"
      by (cases "globFilesOrEmpty env (st\<lparr>readLog := readLog st @ [f]\<rparr>) g")
    show ?thesis
    proof (cases "fs_readFile env f")
      case None
      then show ?thesis using True gs by (simp add: Bundle_def BundleTry_def)
    next
      case (Some content)
      show ?thesis
      proof (cases d)
        case (Inl e)
        then show ?thesis using True Some gs by (simp add: Bundle_def BundleTry_def)
      next
        case (Inr dedupeFiles)
        from ret [of s2 content dedupeFiles] obtain t r1 where
          "bundle' n env s2 f content dedupeFiles = Some (t, r1)"
          by (cases "bundle' n env s2 f content dedupeFiles") auto
        then show ?thesis using True Some gs Inr
          by (cases r1) (simp_all add: Bundle_def BundleTry_def)
      qed
    qed
  qed
qed

lemma BundleAll_returns:
  assumes stable: "stablePaths env" and fin: "finite (stableFiles env)"
    and n: "card (stableFiles env) < n"
  shows "BundleAll n env st fs g \<noteq> None"
proof (induction fs arbitrary: st)
  case Nil
  show ?case by simp
next
  case (Cons f fs)
  from Bundle_returns [OF assms, of st f g] obtain s1 r where
    b: "Bundle n env st f g = Some (s1, r)" by (cases "Bundle n env st f g") auto
  with Cons [of s1] show ?case by (auto split: option.splits sum.splits)
qed

lemma stableFiles_posix:
  "stableFiles (posix cwd files globber) \<subseteq> fst ` set files"
proof
  fix p assume "p \<in> stableFiles (posix cwd files globber)"
  then have "map_of files p \<noteq> None"
    by (auto simp: stableFiles_def posix_def)
  then show "p \<in> fst ` set files"
    by (auto dest: map_of_SomeD intro: rev_image_eqI)
qed

section \<open>The claims about the entry points\<close>

text \<open>
  Claim C3, as amended. \<^verbatim>\<open>BundleAll\<close> returns one node for each entry path, in the order of
  the entries: the node of an entry carries the resolved path of the entry when it was found
  and the path as given otherwise. The patterns are not expanded once for the whole call:
  \<^verbatim>\<open>globs\<close> is called once for every entry whose \<^verbatim>\<open>fs.access\<close> succeeds, each time with the
  whole pattern list, and never when the pattern list is empty.
\<close>

theorem BundleAll_nodes_and_expansions:
  assumes "BundleAll n env st files dedupeGlobs = Some (st', r)"
  shows "\<exists>rs. r = Inr rs \<and>
           list_all2 (\<lambda>f node. filePath node = (if found node then path_resolve env [f] else f))
             files rs \<and>
           globLog st' = globLog st @
             concat (map (\<lambda>f. if fs_access env f \<and> dedupeGlobs \<noteq> [] then [dedupeGlobs] else [])
                       files)"
  using assms
proof (induction files arbitrary: st r)
  case Nil
  then show ?case by auto
next
  case (Cons f files)
  from Cons.prems obtain s1 node where b: "Bundle n env st f dedupeGlobs = Some (s1, Inr node)"
    using Bundle_Inr by (fastforce split: option.splits sum.splits)
  with Cons.prems obtain r' where rest: "BundleAll n env s1 files dedupeGlobs = Some (st', r')"
    by (auto split: option.splits sum.splits)
  from Cons.IH [OF rest] obtain rs where rs: "r' = Inr rs"
    "list_all2 (\<lambda>f node. filePath node = (if found node then path_resolve env [f] else f)) files rs"
    "globLog st' = globLog s1 @
       concat (map (\<lambda>f. if fs_access env f \<and> dedupeGlobs \<noteq> [] then [dedupeGlobs] else []) files)"
    by blast
  have "r = Inr (node # rs)" using Cons.prems b rest rs(1) by auto
  then show ?case using Bundle_node_globLog [OF b] rs(2,3) by simp
qed

theorem BundleAll_nodes_and_expansions_witness:
  "\<exists>st' a b.
     BundleAll 2 (project [(''/p/a.scss'', ''a{}'')] (Some [])) (newBundler Map.empty)
       [''/p/a.scss'', ''/p/b.scss''] [''/p/*.scss''] = Some (st', Inr [a, b]) \<and>
     filePath a = ''/p/a.scss'' \<and> found a \<and> filePath b = ''/p/b.scss'' \<and> \<not> found b \<and>
     globLog st' = [[''/p/*.scss'']]"
proof -
  let ?env = "project [(''/p/a.scss'', ''a{}'')] (Some [])"
  let ?run = "BundleAll 2 ?env (newBundler Map.empty) [''/p/a.scss'', ''/p/b.scss''] [''/p/*.scss'']"
  have "map_option snd ?run =
      Some (Inr [BundleResult ''/p/a.scss'' True (Some ''a{}'') (Some []) False, notFoundNode ''/p/b.scss''])"
    by code_simp
  then obtain st' where run: "?run = Some (st', Inr [BundleResult ''/p/a.scss'' True (Some ''a{}'') (Some []) False, notFoundNode ''/p/b.scss''])"
    by (cases ?run) auto
  have acc: "fs_access ?env ''/p/a.scss''" "\<not> fs_access ?env ''/p/b.scss''"
    by code_simp+
  from BundleAll_nodes_and_expansions [OF run] acc
  have "globLog st' = [[''/p/*.scss'']]"
    by (simp add: newBundler_def)
  with run show ?thesis by (simp add: notFoundNode_def)
qed

text \<open>The claim as it was stated (one expansion for each call) fails for two entries that
  can be accessed: \<^verbatim>\<open>globs\<close> has been called twice.\<close>

theorem BundleAll_expands_per_entry:
  "map_option (\<lambda>(st, r). globLog st)
     (BundleAll 2 (project [(''/p/a.scss'', ''a{}''), (''/p/b.scss'', ''b{}'')] (Some []))
        (newBundler Map.empty) [''/p/a.scss'', ''/p/b.scss''] [''*.scss'']) =
   Some [[''*.scss''], [''*.scss'']]"
  by code_simp






section \<open>The claims about single directives\<close>












text \<open>
  Claim C8, as amended. For a directive whose candidate and underscored candidate cannot be
  accessed, the iteration of the loop changes nothing in the state but the trace (the usage
  counters are as before), pushes the node with the candidate path and \<^verbatim>\<open>found: false\<close>, and
  replaces the directive by the text the registry holds for the candidate path; only when
  the registry holds none the replacement is the marker, which has the text of the directive
  between its two comments.
\<close>

theorem import_not_found:
  assumes "candidate = path_resolve env [dirname, if notContains rawPath FILE_EXTENSION
                                                    then rawPath @ FILE_EXTENSION else rawPath]"
    and "\<not> fs_access env candidate"
    and "\<not> fs_access env (path_join env [path_dirname env candidate,
                                            CHR ''_'' # path_basename env candidate])"
    and "imp = resolveImport env dirname (directive, rawPath)"
  shows "fullPath imp = candidate \<and> \<not> importFound imp \<and>
     bundleImports n env dedupeFiles (imp # imps) st content currentImports =
       bundleImports n env dedupeFiles imps
         (st\<lparr>importLog := importLog st @ [(candidate, False, shouldDedupe dedupeFiles st imp)]\<rparr>)
         (js_replace (if shouldDedupe dedupeFiles st imp then [] else content) directive
            (case fileRegistry st candidate of
               None \<Rightarrow> ''/*** IMPORTED FILE NOT FOUND ***/'' @ os_EOL env @ directive @ ''/*** --- ***/''
             | Some cached \<Rightarrow> cached))
         (currentImports @ [BundleResult candidate False None None (shouldDedupe dedupeFiles st imp)])"
proof -
  have imp: "fullPath imp = candidate" "\<not> importFound imp" "importString imp = directive"
    using assms
    by (cases "notContains rawPath FILE_EXTENSION"; simp add: resolveImport_def Let_def)+
  then show ?thesis
    by (simp add: bundleImports_Cons importBranch_def replaceImport_def Let_def
        contentToReplace_def notFoundMarker_def setDeduped_def split: option.splits)
qed

theorem import_not_found_witness:
  "map_option snd
     (bundleImports 0 (project [] (Some [])) []
        [resolveImport (project [] (Some [])) ''/p'' (singleQuoted ''missing'', ''missing'')]
        (newBundler Map.empty) (singleQuoted ''missing'') []) =
   Some (Inr (''/*** IMPORTED FILE NOT FOUND ***/'' @ [CHR 0x0A] @ singleQuoted ''missing'' @ ''/*** --- ***/'',
              [BundleResult ''/p/missing.scss'' False None None False]))"
proof -
  let ?env = "project [] (Some [])"
  let ?imp = "resolveImport ?env ''/p'' (singleQuoted ''missing'', ''missing'')"
  have c: "''/p/missing.scss'' = path_resolve ?env [''/p'', if notContains ''missing'' FILE_EXTENSION
                                                    then ''missing'' @ FILE_EXTENSION else ''missing'']"
    by code_simp
  have a: "\<not> fs_access ?env ''/p/missing.scss''"
    "\<not> fs_access ?env (path_join ?env [path_dirname ?env ''/p/missing.scss'',
                                            CHR ''_'' # path_basename ?env ''/p/missing.scss''])"
    by code_simp+
  have r: "js_replace (singleQuoted ''missing'') (singleQuoted ''missing'')
             (''/*** IMPORTED FILE NOT FOUND ***/'' @ os_EOL ?env @ singleQuoted ''missing'' @ ''/*** --- ***/'') =
           ''/*** IMPORTED FILE NOT FOUND ***/'' @ [CHR 0x0A] @ singleQuoted ''missing'' @ ''/*** --- ***/''"
    by code_simp
  have d: "\<not> shouldDedupe [] (newBundler Map.empty) ?imp"
    by (simp add: shouldDedupe_def)
  from import_not_found [OF c a refl, of "singleQuoted ''missing''" 0 "[]" "[]" "newBundler Map.empty"
      "singleQuoted ''missing''" "[]"]
  show ?thesis using r d by (simp add: bundleImports_Nil newBundler_def)
qed

text \<open>The claim as it was stated (the marker for every directive that is not found) fails for
  a bundler that was made with a registry holding the candidate path.\<close>

theorem preloaded_registry_replaces_marker:
  "map_option snd
     (Bundle 2 (project [(''/p/a.scss'', singleQuoted ''missing'')] (Some []))
        (newBundler [''/p/missing.scss'' \<mapsto> ''cached'']) ''/p/a.scss'' []) =
   Some (Inr (BundleResult ''/p/a.scss'' True (Some ''cached'')
                (Some [BundleResult ''/p/missing.scss'' False None None False]) False))"
  by code_simp

section \<open>The claims about deduplication\<close>

text \<open>
  Claim C1 does not hold of the code. The entry imports \<^verbatim>\<open>a.scss\<close> twice, \<^verbatim>\<open>a.scss\<close> is in the
  dedupe list. At the second directive the code assigns the empty string to \<^verbatim>\<open>content\<close>,
  the text of the entry, and not to \<^verbatim>\<open>contentToReplace\<close>: the bundled content of the entry is
  empty, the text inlined at the first directive is lost with everything else.
\<close>

theorem dedupe_discards_whole_content:
  "map_option snd
     (Bundle 2
        (project [(''/p/main.scss'', singleQuoted ''a'' @ [CHR 0x0A] @ singleQuoted ''a'' @ [CHR 0x0A]),
                  (''/p/a.scss'', ''a{}'')] (Some [''/p/a.scss'']))
        (newBundler Map.empty) ''/p/main.scss'' [''/p/a.scss'']) =
   Some (Inr (BundleResult ''/p/main.scss'' True (Some [])
                (Some [BundleResult ''/p/a.scss'' True (Some ''a{}'') (Some []) False,
                       BundleResult ''/p/a.scss'' True None (Some []) True]) False))"
  by code_simp



section \<open>The claims about the registry\<close>






section \<open>Every run returns\<close>

text \<open>On a POSIX system with the files of the list \<open>files\<close>, every batch returns when the bound
  on the recursion is above the number of files: none of the results above is about runs
  that do not exist.\<close>

theorem BundleAll_returns_posix:
  assumes "isAbsolute cwd" and "length files < n"
  shows "BundleAll n (posix cwd files globber) st entries dedupeGlobs \<noteq> None"
proof (rule BundleAll_returns)
  show "stablePaths (posix cwd files globber)" using assms(1) by (rule stablePaths_posix)
  have sub: "stableFiles (posix cwd files globber) \<subseteq> fst ` set files" by (rule stableFiles_posix)
  then show fin: "finite (stableFiles (posix cwd files globber))" by (rule finite_subset) simp
  have "card (stableFiles (posix cwd files globber)) \<le> card (fst ` set files)"
    using sub by (intro card_mono) auto
  also have "\<dots> \<le> length files"
    using card_image_le [of "set files" fst] card_length [of files] by simp
  finally show "card (stableFiles (posix cwd files globber)) < n" using assms(2) by simp
qed

theorem BundleAll_returns_posix_witness:
  "BundleAll 3 (project [(''/p/main.scss'', singleQuoted ''main''), (''/p/a.scss'', ''a{}'')] (Some []))
     (newBundler Map.empty) [''/p/main.scss'', ''/p/a.scss''] [] \<noteq> None"
  unfolding project_def
  by (rule BundleAll_returns_posix) (simp_all add: isAbsolute_def)

end
